theory Spec2Isabelle
  imports Main "HOL-Library.AList" "HOL-Library.Multiset"
begin

section \<open>Go runtime: panics, returned errors, loops with early exit\<close>

text \<open>
  A Go function either returns (possibly with a non-nil \<open>error\<close> value) or panics.
  Both ways of failing are values of \<open>fault\<close>; a computation is \<open>fault + 'a\<close>.
  A panic inside the analyzer's goroutine is never recovered, so it ends the process.
\<close>

datatype panic =
    IndexOutOfRange
  | MakeSliceLenOutOfRange
  | NodeIDCollision
  | SelfEdge
  | NilDereference
  | InvalidArgument

datatype err = OpenError | ReadError | CsvParseError | JsonError

datatype fault = Panic panic | Error err

text \<open>A \<open>for ... range\<close> loop whose body may fail: the first fault ends the loop.\<close>

fun foldE :: "('a \<Rightarrow> 's \<Rightarrow> fault + 's) \<Rightarrow> 'a list \<Rightarrow> 's \<Rightarrow> fault + 's" where
  "foldE f [] s = Inr s"
| "foldE f (x # xs) s = (case f x s of Inl e \<Rightarrow> Inl e | Inr s' \<Rightarrow> foldE f xs s')"

text \<open>
  Go's \<open>xs[i]\<close> with an \<open>int64\<close> index: a run-time panic when the index is negative
  or not below the length.
\<close>

definition index :: "'a list \<Rightarrow> int \<Rightarrow> fault + 'a" where
  "index xs i = (if 0 \<le> i \<and> i < int (length xs) then Inr (xs ! nat i)
                 else Inl (Panic IndexOutOfRange))"

section \<open>Helpers of the analyzer (src/unnamed/part_000)\<close>

subsection \<open>GenerateRandomArgs\<close>

text \<open>
  \<open>math/rand\<close>'s process-wide source is threaded as a state: the sequence of its
  future raw draws. \<open>rand.Intn(n)\<close> panics for \<open>n \<le> 0\<close> and otherwise returns a
  number in \<open>[0, n)\<close> and consumes from the source.
\<close>

type_synonym Rand = "nat \<Rightarrow> nat"

definition Intn :: "int \<Rightarrow> Rand \<Rightarrow> fault + (int \<times> Rand)" where
  "Intn n r = (if n \<le> 0 then Inl (Panic InvalidArgument)
               else Inr (int (r 0) mod n, \<lambda>i. r (Suc i)))"

text \<open>
  \<open>args := make([]int, count)\<close> panics for a negative count; the loop then overwrites
  every slot in index order with \<open>rand.Intn(14) + 2\<close>.
\<close>

definition GenerateRandomArgs :: "int \<Rightarrow> Rand \<Rightarrow> fault + (int list \<times> Rand)" where
  "GenerateRandomArgs cnt r =
     (if cnt < 0 then Inl (Panic MakeSliceLenOutOfRange)
      else foldE (\<lambda>i (args, r).
                    case Intn 14 r of
                      Inl e \<Rightarrow> Inl e
                    | Inr (v, r') \<Rightarrow> Inr (args[i := v + 2], r'))
             [0..<nat cnt] (replicate (nat cnt) 0, r))"

subsection \<open>LoadFromSym\<close>

text \<open>
  The file system and \<open>encoding/csv\<close> are outside the repository. The model starts
  from what they answer: \<open>os.Open\<close> fails or succeeds, and then \<open>reader.ReadAll\<close>
  fails (a row that is not well-formed CSV, or whose number of fields differs from the
  first row's) or yields the records. After that the function appends \<open>"1"\<close> and, for
  every record in order, \<open>record[3]\<close>; the read of \<open>record[3]\<close> is unguarded.
\<close>

datatype sym_input = OpenFails | ReadAllFails | Records "string list list"

definition LoadFromSym :: "sym_input \<Rightarrow> fault + string list" where
  "LoadFromSym inp =
     (case inp of
        OpenFails \<Rightarrow> Inl (Error OpenError)
      | ReadAllFails \<Rightarrow> Inl (Error CsvParseError)
      | Records records \<Rightarrow>
          foldE (\<lambda>record signals.
                   case index record 3 of
                     Inl e \<Rightarrow> Inl e
                   | Inr name \<Rightarrow> Inr (signals @ [name]))
            records [''1''])"

subsection \<open>stringToInt and LoadFromJson\<close>

text \<open>
  \<open>stringToInt\<close> calls \<open>fmt.Sscanf(s, "%d", &result)\<close> on a zero-initialised
  \<open>int64\<close> and drops the error. The standard library is outside the repository; the
  scan of one \<open>%d\<close> verb is modelled after \<open>fmt\<close>'s scanner, which reads the string
  rune by rune: leading space is skipped (a newline there is an error), one optional
  sign is accepted, then the longest non-empty run of decimal digits, and the token goes
  through \<open>strconv.ParseInt(tok, 10, 64)\<close>, which fails outside the \<open>int64\<close> range.
  Input after the digits is never read. The target is assigned only on success.
\<close>

type_synonym rune = nat

definition isSpace :: "rune \<Rightarrow> bool" where
  "isSpace r \<longleftrightarrow>
     (9 \<le> r \<and> r \<le> 13) \<or> r = 32 \<or> r = 133 \<or> r = 160 \<or> r = 5760
     \<or> (8192 \<le> r \<and> r \<le> 8202) \<or> r = 8232 \<or> r = 8233 \<or> r = 8239 \<or> r = 8287
     \<or> r = 12288"

definition isDigit :: "rune \<Rightarrow> bool" where
  "isDigit r \<longleftrightarrow> 48 \<le> r \<and> r \<le> 57"

datatype scan_error = UnexpectedNewline | UnexpectedEOF | ExpectedInteger | ValueOutOfRange

fun SkipSpace :: "rune list \<Rightarrow> scan_error + rune list" where
  "SkipSpace [] = Inr []"
| "SkipSpace (r # rs) =
     (if r = 13 \<and> (case rs of [] \<Rightarrow> False | r' # _ \<Rightarrow> r' = 10) then SkipSpace rs
      else if r = 10 then Inl UnexpectedNewline
      else if isSpace r then SkipSpace rs
      else Inr (r # rs))"

text \<open>The number a run of decimal digits denotes.\<close>

definition decimal :: "rune list \<Rightarrow> nat" where
  "decimal ds = foldl (\<lambda>acc d. 10 * acc + (d - 48)) 0 ds"

definition scanInt :: "rune list \<Rightarrow> scan_error + int" where
  "scanInt s =
     (case SkipSpace s of
        Inl e \<Rightarrow> Inl e
      | Inr s1 \<Rightarrow>
          (case s1 of
             [] \<Rightarrow> Inl UnexpectedEOF
           | r # rs \<Rightarrow>
               let (neg, s2) = (if r = 43 then (False, rs)
                                else if r = 45 then (True, rs)
                                else (False, s1))
               in if s2 = [] then Inl UnexpectedEOF
                  else let tok = takeWhile isDigit s2
                       in if tok = [] then Inl ExpectedInteger
                          else let v = (if neg then - int (decimal tok) else int (decimal tok))
                               in if v < - (2 ^ 63) \<or> 2 ^ 63 - 1 < v then Inl ValueOutOfRange
                                  else Inr v))"

definition Sscanf_d :: "rune list \<Rightarrow> scan_error + int" where
  "Sscanf_d s = (case SkipSpace s of Inl e \<Rightarrow> Inl e | Inr s' \<Rightarrow> scanInt s')"

definition stringToInt :: "rune list \<Rightarrow> int" where
  "stringToInt s = (case Sscanf_d s of Inl e \<Rightarrow> 0 | Inr v \<Rightarrow> v)"

text \<open>
  Go leaves the order of \<open>for k := range m\<close> over a map unspecified. A map is an
  association list and the order of a \<open>range\<close> loop is an oracle on its key list: any
  function that returns a rearrangement of the keys.
\<close>

type_synonym 'k range_order = "'k list \<Rightarrow> 'k list"

definition is_range_order :: "'k range_order \<Rightarrow> bool" where
  "is_range_order ord \<longleftrightarrow> (\<forall>ks. mset (ord ks) = mset ks)"

text \<open>
  Each constraint is an array of three linear expressions; each expression lists the
  signals used.
\<close>

type_synonym Constraint = "int list \<times> int list \<times> int list"
type_synonym Constraints = "Constraint list"

text \<open>
  \<open>LoadFromJson\<close>, from what \<open>os.ReadFile\<close> and \<open>json.Unmarshal\<close> answer: either of
  them fails, or the document decodes to a list of triples of string-keyed maps (keys
  given as rune sequences). Every key of every map goes through \<open>stringToInt\<close> and is
  appended to the expression's slice.
\<close>

datatype json_input =
    ReadFileFails
  | UnmarshalFails
  | Decoded "((rune list \<times> string) list \<times> (rune list \<times> string) list
              \<times> (rune list \<times> string) list) list"

definition convertKeys :: "rune list range_order \<Rightarrow> (rune list \<times> string) list \<Rightarrow> int list" where
  "convertKeys ord linearExpression =
     fold (\<lambda>key intConstraint. intConstraint @ [stringToInt key])
       (ord (map fst linearExpression)) []"

definition LoadFromJson :: "rune list range_order \<Rightarrow> json_input \<Rightarrow> fault + Constraints" where
  "LoadFromJson ord inp =
     (case inp of
        ReadFileFails \<Rightarrow> Inl (Error ReadError)
      | UnmarshalFails \<Rightarrow> Inl (Error JsonError)
      | Decoded tempData \<Rightarrow>
          Inr (fold (\<lambda>(a, b, c) constraints.
                       constraints @ [(convertKeys ord a, convertKeys ord b, convertKeys ord c)])
                 tempData []))"

section \<open>The graph library (gonum's simple.UndirectedGraph)\<close>

text \<open>
  The analyzer stores its graph in \<open>gonum.org/v1/gonum/graph/simple\<close>, which is
  outside the repository. An \<open>UndirectedGraph\<close> holds two Go maps: \<open>nodes\<close> from
  node ID to node, and \<open>edges\<close> from node ID to a map from neighbour ID to edge. The
  maps are association lists here; every operation below follows the library's method
  of the same name, with its panics.
\<close>

record NamedNode =
  IDVal :: int
  Name :: string

definition ID :: "NamedNode \<Rightarrow> int" where
  "ID n = IDVal n"

record Edge =
  F :: NamedNode
  T :: NamedNode

record UndirectedGraph =
  nodes :: "(int \<times> NamedNode) list"
  edges :: "(int \<times> (int \<times> Edge) list) list"

definition NewUndirectedGraph :: UndirectedGraph where
  "NewUndirectedGraph = \<lparr>nodes = [], edges = []\<rparr>"

text \<open>\<open>g.Node(id)\<close>: the node with that ID, or nil.\<close>

definition Node :: "UndirectedGraph \<Rightarrow> int \<Rightarrow> NamedNode option" where
  "Node g i = map_of (nodes g) i"

text \<open>\<open>g.AddNode(n)\<close> panics when the ID is already in the graph.\<close>

definition AddNode :: "UndirectedGraph \<Rightarrow> NamedNode \<Rightarrow> fault + UndirectedGraph" where
  "AddNode g n =
     (case map_of (nodes g) (ID n) of
        Some _ \<Rightarrow> Inl (Panic NodeIDCollision)
      | None \<Rightarrow> Inr (g\<lparr>nodes := AList.update (ID n) n (nodes g)\<rparr>))"

text \<open>
  \<open>g.SetEdge(e)\<close> panics on an edge from a node to itself. Otherwise both end nodes
  are stored under their IDs (added, or replacing the node stored there), and the edge
  is stored in both directions, replacing an edge already there.
\<close>

definition setHalfEdge ::
  "int \<Rightarrow> int \<Rightarrow> Edge \<Rightarrow> (int \<times> (int \<times> Edge) list) list \<Rightarrow> (int \<times> (int \<times> Edge) list) list"
where
  "setHalfEdge u v e es =
     (case map_of es u of
        Some fm \<Rightarrow> AList.update u (AList.update v e fm) es
      | None \<Rightarrow> AList.update u [(v, e)] es)"

definition SetEdge :: "UndirectedGraph \<Rightarrow> Edge \<Rightarrow> fault + UndirectedGraph" where
  "SetEdge g e =
     (let from = F e; fid = ID from; to = T e; tid = ID to
      in if fid = tid then Inl (Panic SelfEdge)
         else Inr \<lparr>nodes = AList.update tid to (AList.update fid from (nodes g)),
                   edges = setHalfEdge tid fid e (setHalfEdge fid tid e (edges g))\<rparr>)"

text \<open>
  \<open>g.Nodes()\<close> and \<open>g.From(id)\<close> iterate over a map, in the order of the oracle.
  \<open>From\<close> walks the keys of \<open>edges[id]\<close> and looks each one up in \<open>nodes\<close>.
\<close>

definition Nodes :: "int range_order \<Rightarrow> UndirectedGraph \<Rightarrow> NamedNode list" where
  "Nodes ord g = List.map_filter (map_of (nodes g)) (ord (map fst (nodes g)))"

definition From :: "int range_order \<Rightarrow> UndirectedGraph \<Rightarrow> int \<Rightarrow> NamedNode option list" where
  "From ord g i =
     (case map_of (edges g) i of
        None \<Rightarrow> []
      | Some fm \<Rightarrow> map (map_of (nodes g)) (ord (map fst fm)))"

section \<open>buildGraph (src/internal/analyzer.go)\<close>

text \<open>The set of signals of one constraint, pooled over its three expressions.\<close>

definition signalSet :: "Constraint \<Rightarrow> (int \<times> unit) list" where
  "signalSet constraint =
     (case constraint of (a, b, c) \<Rightarrow>
        fold (\<lambda>linearExpression sset.
                fold (\<lambda>signal sset. AList.update signal () sset) linearExpression sset)
          [a, b, c] [])"

text \<open>
  One pass of the second loop: the node of a signal is fetched from the graph or, when
  the graph has none, created with the name \<open>signals[signal]\<close> (an unguarded index)
  and added.
\<close>

definition getNode ::
  "string list \<Rightarrow> int \<Rightarrow> UndirectedGraph \<times> NamedNode list
     \<Rightarrow> fault + (UndirectedGraph \<times> NamedNode list)"
where
  "getNode signals signal st =
     (case st of (graph, nodeList) \<Rightarrow>
        (case Node graph signal of
           Some node \<Rightarrow> Inr (graph, nodeList @ [node])
         | None \<Rightarrow>
             (case index signals signal of
                Inl e \<Rightarrow> Inl e
              | Inr name \<Rightarrow>
                  let node = \<lparr>IDVal = signal, Name = name\<rparr>
                  in (case AddNode graph node of
                        Inl e \<Rightarrow> Inl e
                      | Inr graph' \<Rightarrow> Inr (graph', nodeList @ [node])))))"

text \<open>The third loop: \<open>SetEdge\<close> for every pair \<open>i < j\<close> of the node list.\<close>

fun connectAll :: "NamedNode list \<Rightarrow> UndirectedGraph \<Rightarrow> fault + UndirectedGraph" where
  "connectAll [] graph = Inr graph"
| "connectAll (n # rest) graph =
     (case foldE (\<lambda>m g. SetEdge g \<lparr>F = n, T = m\<rparr>) rest graph of
        Inl e \<Rightarrow> Inl e
      | Inr graph' \<Rightarrow> connectAll rest graph')"

definition addConstraint ::
  "int range_order \<Rightarrow> string list \<Rightarrow> Constraint \<Rightarrow> UndirectedGraph \<Rightarrow> fault + UndirectedGraph"
where
  "addConstraint ord signals constraint graph =
     (case foldE (getNode signals) (ord (map fst (signalSet constraint))) (graph, []) of
        Inl e \<Rightarrow> Inl e
      | Inr (graph', nodeList) \<Rightarrow> connectAll nodeList graph')"

definition buildGraph ::
  "int range_order \<Rightarrow> Constraints \<Rightarrow> string list \<Rightarrow> fault + UndirectedGraph"
where
  "buildGraph ord data signals = foldE (addConstraint ord signals) data NewUndirectedGraph"

section \<open>findUnderconstrainedSignals (src/internal/analyzer.go)\<close>

definition findUnderconstrainedSignals :: "int range_order \<Rightarrow> UndirectedGraph \<Rightarrow> string list" where
  "findUnderconstrainedSignals ord graph =
     fold (\<lambda>n underconstrained.
             if length (From ord graph (ID n)) \<le> 1 then underconstrained @ [Name n]
             else underconstrained)
       (Nodes ord graph) []"

text \<open>What the claims speak about: the IDs of the nodes and the neighbours of a node.\<close>

definition node_ids :: "UndirectedGraph \<Rightarrow> int set" where
  "node_ids g = fst ` set (nodes g)"

definition neighbors :: "UndirectedGraph \<Rightarrow> int \<Rightarrow> int set" where
  "neighbors g u = (case map_of (edges g) u of None \<Rightarrow> {} | Some fm \<Rightarrow> fst ` set fm)"

definition signals_of :: "Constraint \<Rightarrow> int set" where
  "signals_of constraint = (case constraint of (a, b, c) \<Rightarrow> set a \<union> set b \<union> set c)"

text \<open>The undirected edges of a graph, each as the set of its two end nodes.\<close>

definition edge_set :: "UndirectedGraph \<Rightarrow> int set set" where
  "edge_set g = {{u, v} | u v. v \<in> neighbors g u}"

text \<open>
  The invariant of a graph built through the library's methods: both maps have distinct
  keys, every node is stored under its own ID, and adjacency is irreflexive, symmetric
  and between nodes of the graph. \<open>named\<close> adds what \<open>buildGraph\<close> maintains:
  every node carries the name found at its index in the name table.
\<close>

definition wf_graph :: "UndirectedGraph \<Rightarrow> bool" where
  "wf_graph g \<longleftrightarrow>
     distinct (map fst (nodes g)) \<and> distinct (map fst (edges g))
     \<and> (\<forall>u fm. map_of (edges g) u = Some fm \<longrightarrow> distinct (map fst fm))
     \<and> (\<forall>k n. map_of (nodes g) k = Some n \<longrightarrow> ID n = k)
     \<and> (\<forall>u v. v \<in> neighbors g u \<longrightarrow> u \<noteq> v \<and> u \<in> neighbors g v \<and> u \<in> node_ids g)"

definition named :: "string list \<Rightarrow> UndirectedGraph \<Rightarrow> bool" where
  "named signals g \<longleftrightarrow>
     (\<forall>k n. map_of (nodes g) k = Some n \<longrightarrow>
        0 \<le> k \<and> k < int (length signals) \<and> n = \<lparr>IDVal = k, Name = signals ! nat k\<rparr>)"

section \<open>Properties of the helpers\<close>

lemma foldE_append:
  "foldE f (xs @ ys) s = (case foldE f xs s of Inl e \<Rightarrow> Inl e | Inr s' \<Rightarrow> foldE f ys s')"
  by (induction xs arbitrary: s) (auto split: sum.splits)

lemma LoadFromSym_loop:
  assumes "\<forall>r \<in> set records. 4 \<le> length r"
  shows "foldE (\<lambda>record signals.
                   case index record 3 of
                     Inl e \<Rightarrow> Inl e
                   | Inr name \<Rightarrow> Inr (signals @ [name])) records acc
         = Inr (acc @ map (\<lambda>r. r ! 3) records)"
  using assms by (induction records arbitrary: acc) (auto simp: index_def)

lemma GenerateRandomArgs_loop:
  assumes "n \<le> length args0"
  shows "\<exists>args r'.
           foldE (\<lambda>i (args, r).
                    case Intn 14 r of
                      Inl e \<Rightarrow> Inl e
                    | Inr (v, r') \<Rightarrow> Inr (args[i := v + 2], r'))
             [0..<n] (args0, r) = Inr (args, r')
           \<and> length args = length args0
           \<and> (\<forall>i < n. 2 \<le> args ! i \<and> args ! i \<le> 15)"
  using assms
proof (induction n)
  case 0
  then show ?case by simp
next
  case (Suc n)
  then obtain args r' where
    run: "foldE (\<lambda>i (args, r).
                    case Intn 14 r of
                      Inl e \<Rightarrow> Inl e
                    | Inr (v, r') \<Rightarrow> Inr (args[i := v + 2], r'))
             [0..<n] (args0, r) = Inr (args, r')"
    and len: "length args = length args0"
    and rng: "\<forall>i < n. 2 \<le> args ! i \<and> args ! i \<le> 15"
    by auto
  let ?v = "int (r' 0) mod 14"
  have v: "0 \<le> ?v" "?v < 14" by simp_all
  have step: "Intn 14 r' = Inr (?v, \<lambda>i. r' (Suc i))"
    by (simp add: Intn_def)
  have "\<forall>i < Suc n. 2 \<le> args[n := ?v + 2] ! i \<and> args[n := ?v + 2] ! i \<le> 15"
  proof (intro allI impI)
    fix i assume "i < Suc n"
    show "2 \<le> args[n := ?v + 2] ! i \<and> args[n := ?v + 2] ! i \<le> 15"
    proof (cases "i = n")
      case True
      with Suc.prems len v show ?thesis by simp
    next
      case False
      with \<open>i < Suc n\<close> rng show ?thesis by simp
    qed
  qed
  with run len step show ?case
    by (simp add: foldE_append)
qed

lemma isDigit_not_space: "isDigit r \<Longrightarrow> \<not> isSpace r \<and> r \<noteq> 43 \<and> r \<noteq> 45"
  by (auto simp: isDigit_def isSpace_def)

lemma SkipSpace_nonspace: "\<not> isSpace r \<Longrightarrow> SkipSpace (r # rs) = Inr (r # rs)"
  by (auto simp: isSpace_def)

lemma takeWhile_digits:
  assumes "\<forall>d \<in> set ds. isDigit d" "rest = [] \<or> \<not> isDigit (hd rest)"
  shows "takeWhile isDigit (ds @ rest) = ds"
proof -
  from assms(2) have "takeWhile isDigit rest = []"
    by (cases rest) auto
  with assms(1) show ?thesis
    by (simp add: takeWhile_append2)
qed

lemma scanInt_digits:
  assumes "ds \<noteq> []" "\<forall>d \<in> set ds. isDigit d" "rest = [] \<or> \<not> isDigit (hd rest)"
  shows "scanInt (ds @ rest) =
           (if 2 ^ 63 - 1 < int (decimal ds) then Inl ValueOutOfRange else Inr (int (decimal ds)))"
proof -
  from assms(1) obtain d ds' where ds: "ds = d # ds'" by (cases ds) auto
  with assms(2) have d: "isDigit d" by simp
  have tw: "takeWhile isDigit (d # ds' @ rest) = ds"
    using takeWhile_digits [OF assms(2,3)] ds by simp
  have neg: "\<not> int (decimal ds) < - (2 ^ 63)"
    by (smt (verit) of_nat_0_le_iff zero_le_power)
  show ?thesis
    unfolding scanInt_def using isDigit_not_space [OF d] tw neg assms(1)
    by (simp add: ds SkipSpace_nonspace Let_def del: takeWhile.simps SkipSpace.simps)
qed

lemma scanInt_minus_digits:
  assumes "ds \<noteq> []" "\<forall>d \<in> set ds. isDigit d" "rest = [] \<or> \<not> isDigit (hd rest)"
  shows "scanInt (45 # ds @ rest) =
           (if 2 ^ 63 < int (decimal ds) then Inl ValueOutOfRange else Inr (- int (decimal ds)))"
proof -
  have sp: "\<not> isSpace 45" by (simp add: isSpace_def)
  have tw: "takeWhile isDigit (ds @ rest) = ds"
    by (rule takeWhile_digits [OF assms(2,3)])
  have pos: "\<not> 2 ^ 63 - 1 < - int (decimal ds)"
    by (smt (verit) of_nat_0_le_iff one_le_power)
  show ?thesis
    unfolding scanInt_def using tw pos assms(1)
    by (simp add: SkipSpace_nonspace [OF sp] Let_def del: SkipSpace.simps)
qed

lemma stringToInt_digits:
  assumes "ds \<noteq> []" "\<forall>d \<in> set ds. isDigit d" "rest = [] \<or> \<not> isDigit (hd rest)"
    and "decimal ds < 2 ^ 63"
  shows "stringToInt (ds @ rest) = int (decimal ds)"
proof -
  from assms(1) obtain d ds' where ds: "ds = d # ds'" by (cases ds) auto
  with assms(2) have "\<not> isSpace d" using isDigit_not_space by simp
  then have "SkipSpace (ds @ rest) = Inr (ds @ rest)"
    by (simp add: ds SkipSpace_nonspace del: SkipSpace.simps)
  moreover have "\<not> 2 ^ 63 - 1 < int (decimal ds)"
    using assms(4) by (simp add: of_nat_less_numeral_power_cancel_iff)
  ultimately show ?thesis
    by (simp add: stringToInt_def Sscanf_d_def scanInt_digits [OF assms(1-3)])
qed

lemma stringToInt_minus_digits:
  assumes "ds \<noteq> []" "\<forall>d \<in> set ds. isDigit d" "rest = [] \<or> \<not> isDigit (hd rest)"
    and "decimal ds \<le> 2 ^ 63"
  shows "stringToInt (45 # ds @ rest) = - int (decimal ds)"
proof -
  have "\<not> isSpace 45" by (simp add: isSpace_def)
  then have "SkipSpace (45 # ds @ rest) = Inr (45 # ds @ rest)"
    by (rule SkipSpace_nonspace)
  moreover have "\<not> 2 ^ 63 < int (decimal ds)"
    using assms(4) by (simp add: of_nat_le_numeral_power_cancel_iff not_less)
  ultimately show ?thesis
    by (simp add: stringToInt_def Sscanf_d_def scanInt_minus_digits [OF assms(1-3)])
qed

lemma stringToInt_no_number:
  assumes "case s of [] \<Rightarrow> True | r # rs \<Rightarrow> \<not> isSpace r \<and> r \<noteq> 43 \<and> r \<noteq> 45 \<and> \<not> isDigit r"
  shows "stringToInt s = 0"
proof (cases s)
  case Nil
  then show ?thesis
    by (simp add: stringToInt_def Sscanf_d_def scanInt_def)
next
  case (Cons r rs)
  with assms have r: "\<not> isSpace r" "r \<noteq> 43" "r \<noteq> 45" "\<not> isDigit r" by simp_all
  then show ?thesis
    by (simp add: Cons stringToInt_def Sscanf_d_def scanInt_def SkipSpace_nonspace
        del: SkipSpace.simps)
qed

lemma convertKeys_map: "convertKeys ord m = map stringToInt (ord (map fst m))"
proof -
  have "fold (\<lambda>key acc. acc @ [stringToInt key]) ks acc = acc @ map stringToInt ks"
    for ks acc by (induction ks arbitrary: acc) auto
  then show ?thesis by (simp add: convertKeys_def)
qed

lemma LoadFromJson_map:
  "LoadFromJson ord (Decoded td)
     = Inr (map (\<lambda>(a, b, c). (convertKeys ord a, convertKeys ord b, convertKeys ord c)) td)"
proof -
  have "fold (\<lambda>(a, b, c) constraints.
                 constraints @ [(convertKeys ord a, convertKeys ord b, convertKeys ord c)]) td acc
        = acc @ map (\<lambda>(a, b, c). (convertKeys ord a, convertKeys ord b, convertKeys ord c)) td"
    for acc by (induction td arbitrary: acc) auto
  then show ?thesis by (simp add: LoadFromJson_def)
qed

lemma convertKeys_mset:
  "is_range_order ord \<Longrightarrow> mset (convertKeys ord m) = image_mset stringToInt (mset (map fst m))"
  by (simp add: convertKeys_map is_range_order_def)

lemmas json_eval = LoadFromJson_def convertKeys_def stringToInt_def Sscanf_d_def scanInt_def isSpace_def isDigit_def decimal_def

section \<open>Properties of the graph builder\<close>

subsection \<open>Association lists\<close>

lemma fold_update_keys:
  "fst ` set (fold (\<lambda>k m. AList.update k () m) xs m) = fst ` set m \<union> set xs"
  by (induction xs arbitrary: m) (auto simp: dom_update)

lemma fold_update_distinct:
  "distinct (map fst m) \<Longrightarrow> distinct (map fst (fold (\<lambda>k m. AList.update k () m) xs m))"
  by (induction xs arbitrary: m) (auto simp: distinct_update)

lemma signalSet_keys: "set (map fst (signalSet c)) = signals_of c"
proof (cases c)
  case (fields a b c')
  have "fst ` set (signalSet c) = set a \<union> set b \<union> set c'"
    by (simp add: fields signalSet_def fold_update_keys)
  then show ?thesis
    by (simp add: fields signals_of_def)
qed

lemma signalSet_distinct: "distinct (map fst (signalSet c))"
  by (cases c) (simp add: signalSet_def fold_update_distinct)

lemma range_order_set: "is_range_order ord \<Longrightarrow> set (ord ks) = set ks"
  unfolding is_range_order_def by (metis set_mset_mset)

lemma range_order_distinct: "is_range_order ord \<Longrightarrow> distinct (ord ks) = distinct ks"
  unfolding is_range_order_def by (metis mset_eq_imp_distinct_iff)

lemma range_order_length: "is_range_order ord \<Longrightarrow> length (ord ks) = length ks"
  unfolding is_range_order_def by (metis size_mset)

lemma map_of_in_keys: "map_of al k = Some v \<Longrightarrow> k \<in> fst ` set al"
  by (meson domI domIff map_of_eq_None_iff)

subsection \<open>SetEdge\<close>

lemma map_of_setHalfEdge:
  "map_of (setHalfEdge u v e es) x =
     (if x = u then Some (AList.update v e (case map_of es u of None \<Rightarrow> [] | Some fm \<Rightarrow> fm))
      else map_of es x)"
  by (auto simp: setHalfEdge_def update_conv' split: option.splits)

lemma distinct_setHalfEdge:
  "distinct (map fst es) \<Longrightarrow> distinct (map fst (setHalfEdge u v e es))"
  by (auto simp: setHalfEdge_def distinct_update split: option.splits)

lemma SetEdge_Inr:
  "ID (F e) \<noteq> ID (T e) \<Longrightarrow>
   SetEdge g e = Inr \<lparr>nodes = AList.update (ID (T e)) (T e) (AList.update (ID (F e)) (F e) (nodes g)),
                      edges = setHalfEdge (ID (T e)) (ID (F e)) e
                                (setHalfEdge (ID (F e)) (ID (T e)) e (edges g))\<rparr>"
  by (simp add: SetEdge_def Let_def)

lemma SetEdge_neighbors:
  assumes "SetEdge g e = Inr g'"
  shows "neighbors g' x =
           neighbors g x \<union> (if x = ID (F e) then {ID (T e)} else {})
                         \<union> (if x = ID (T e) then {ID (F e)} else {})"
proof -
  from assms have ne: "ID (F e) \<noteq> ID (T e)"
    by (auto simp: SetEdge_def Let_def split: if_splits)
  from assms SetEdge_Inr [OF ne, of g]
  have g': "edges g' = setHalfEdge (ID (T e)) (ID (F e)) e
                         (setHalfEdge (ID (F e)) (ID (T e)) e (edges g))"
    by auto
  show ?thesis
    using ne unfolding neighbors_def g'
    by (auto simp: map_of_setHalfEdge dom_update split: option.splits)
qed

lemma SetEdge_node_ids:
  assumes "SetEdge g e = Inr g'"
  shows "node_ids g' = node_ids g \<union> {ID (F e), ID (T e)}"
proof -
  from assms have ne: "ID (F e) \<noteq> ID (T e)"
    by (auto simp: SetEdge_def Let_def split: if_splits)
  from assms SetEdge_Inr [OF ne, of g]
  have "nodes g' = AList.update (ID (T e)) (T e) (AList.update (ID (F e)) (F e) (nodes g))"
    by auto
  then have "node_ids g' = {ID (T e)} \<union> ({ID (F e)} \<union> node_ids g)"
    by (simp add: node_ids_def dom_update)
  then show ?thesis by auto
qed

lemma SetEdge_nodes_same:
  assumes "SetEdge g e = Inr g'"
    and "map_of (nodes g) (ID (F e)) = Some (F e)" "map_of (nodes g) (ID (T e)) = Some (T e)"
  shows "nodes g' = nodes g"
proof -
  from assms(1) have ne: "ID (F e) \<noteq> ID (T e)"
    by (auto simp: SetEdge_def Let_def split: if_splits)
  from assms(1) SetEdge_Inr [OF ne, of g]
  have n': "nodes g' = AList.update (ID (T e)) (T e) (AList.update (ID (F e)) (F e) (nodes g))"
    by auto
  have "AList.update (ID (F e)) (F e) (nodes g) = nodes g"
    by (rule update_triv [OF assms(2)])
  moreover have "AList.update (ID (T e)) (T e) (nodes g) = nodes g"
    by (rule update_triv [OF assms(3)])
  ultimately show ?thesis
    by (simp only: n')
qed

lemma SetEdge_wf:
  assumes "SetEdge g e = Inr g'" "wf_graph g"
  shows "wf_graph g'"
proof -
  from assms(1) have ne: "ID (F e) \<noteq> ID (T e)"
    by (auto simp: SetEdge_def Let_def split: if_splits)
  from assms(1) SetEdge_Inr [OF ne, of g]
  have n': "nodes g' = AList.update (ID (T e)) (T e) (AList.update (ID (F e)) (F e) (nodes g))"
    and e': "edges g' = setHalfEdge (ID (T e)) (ID (F e)) e
                         (setHalfEdge (ID (F e)) (ID (T e)) e (edges g))"
    by auto
  from assms(2) have w1: "distinct (map fst (nodes g))" and w2: "distinct (map fst (edges g))"
    and w3: "\<And>u fm. map_of (edges g) u = Some fm \<Longrightarrow> distinct (map fst fm)"
    and w4: "\<And>k n. map_of (nodes g) k = Some n \<Longrightarrow> ID n = k"
    and w5: "\<And>u v. v \<in> neighbors g u \<Longrightarrow> u \<noteq> v \<and> u \<in> neighbors g v \<and> u \<in> node_ids g"
    unfolding wf_graph_def by blast+
  have a1: "distinct (map fst (nodes g'))"
    using w1 by (simp add: n' distinct_update)
  have a2: "distinct (map fst (edges g'))"
    using w2 by (simp add: e' distinct_setHalfEdge)
  have a3: "distinct (map fst fm)" if "map_of (edges g') u = Some fm" for u fm
    using that w3 unfolding e'
    by (auto simp: map_of_setHalfEdge distinct_update split: if_splits option.splits)
  have a4: "ID n = k" if "map_of (nodes g') k = Some n" for k n
    using that w4 unfolding n' by (auto simp: update_conv' split: if_splits)
  have a5: "u \<noteq> v \<and> u \<in> neighbors g' v \<and> u \<in> node_ids g'" if "v \<in> neighbors g' u" for u v
    using that w5 ne
    unfolding SetEdge_neighbors [OF assms(1)] SetEdge_node_ids [OF assms(1)]
    by (auto split: if_splits)
  show ?thesis
    unfolding wf_graph_def using a1 a2 a3 a4 a5 by blast
qed

subsection \<open>The edge loops\<close>

lemma connect_one:
  assumes "ID n \<notin> ID ` set rest" "wf_graph g" "map_of (nodes g) (ID n) = Some n"
    and "\<forall>m \<in> set rest. map_of (nodes g) (ID m) = Some m"
  shows "\<exists>g'. foldE (\<lambda>m g. SetEdge g \<lparr>F = n, T = m\<rparr>) rest g = Inr g'
           \<and> wf_graph g' \<and> nodes g' = nodes g
           \<and> (\<forall>x. neighbors g' x =
                  neighbors g x \<union> (if x = ID n then ID ` set rest else {})
                                \<union> (if x \<in> ID ` set rest then {ID n} else {}))"
  using assms
proof (induction rest arbitrary: g)
  case Nil
  then show ?case by simp
next
  case (Cons m rest)
  let ?e = "\<lparr>F = n, T = m\<rparr>"
  from Cons.prems(1) have ne: "ID (F ?e) \<noteq> ID (T ?e)" by auto
  then obtain g1 where g1: "SetEdge g ?e = Inr g1"
    using SetEdge_Inr [OF ne] by blast
  have wf1: "wf_graph g1" by (rule SetEdge_wf [OF g1 Cons.prems(2)])
  have n1: "nodes g1 = nodes g"
    using SetEdge_nodes_same [OF g1] Cons.prems(3,4) by simp
  have nb1: "neighbors g1 x =
               neighbors g x \<union> (if x = ID n then {ID m} else {})
                             \<union> (if x = ID m then {ID n} else {})" for x
    using SetEdge_neighbors [OF g1, of x] by simp
  from Cons.prems have "ID n \<notin> ID ` set rest" "map_of (nodes g1) (ID n) = Some n"
    "\<forall>m \<in> set rest. map_of (nodes g1) (ID m) = Some m"
    by (auto simp: n1)
  from Cons.IH [OF this(1) wf1 this(2,3)] obtain g' where
    run: "foldE (\<lambda>m g. SetEdge g \<lparr>F = n, T = m\<rparr>) rest g1 = Inr g'"
    and wf': "wf_graph g'" and n': "nodes g' = nodes g1"
    and nb': "\<And>x. neighbors g' x =
                  neighbors g1 x \<union> (if x = ID n then ID ` set rest else {})
                                 \<union> (if x \<in> ID ` set rest then {ID n} else {})"
    by blast
  have "neighbors g' x =
          neighbors g x \<union> (if x = ID n then ID ` set (m # rest) else {})
                        \<union> (if x \<in> ID ` set (m # rest) then {ID n} else {})" for x
    unfolding nb' nb1 by auto
  with run wf' n' n1 g1 show ?case by simp
qed

lemma connectAll_effect:
  assumes "distinct (map ID ns)" "wf_graph g"
    and "\<forall>m \<in> set ns. map_of (nodes g) (ID m) = Some m"
  shows "\<exists>g'. connectAll ns g = Inr g' \<and> wf_graph g' \<and> nodes g' = nodes g
           \<and> (\<forall>x. neighbors g' x =
                  neighbors g x \<union> (if x \<in> ID ` set ns then ID ` set ns - {x} else {}))"
  using assms
proof (induction ns arbitrary: g)
  case Nil
  then show ?case by simp
next
  case (Cons n ns)
  from Cons.prems have fresh: "ID n \<notin> ID ` set ns" and dist: "distinct (map ID ns)"
    and n: "map_of (nodes g) (ID n) = Some n"
    and rest: "\<forall>m \<in> set ns. map_of (nodes g) (ID m) = Some m"
    by auto
  from connect_one [OF fresh Cons.prems(2) n rest] obtain g1 where
    run1: "foldE (\<lambda>m g. SetEdge g \<lparr>F = n, T = m\<rparr>) ns g = Inr g1"
    and wf1: "wf_graph g1" and n1: "nodes g1 = nodes g"
    and nb1: "\<And>x. neighbors g1 x =
                  neighbors g x \<union> (if x = ID n then ID ` set ns else {})
                                \<union> (if x \<in> ID ` set ns then {ID n} else {})"
    by blast
  from rest have "\<forall>m \<in> set ns. map_of (nodes g1) (ID m) = Some m" by (simp add: n1)
  from Cons.IH [OF dist wf1 this] obtain g' where
    run: "connectAll ns g1 = Inr g'" and wf': "wf_graph g'" and n': "nodes g' = nodes g1"
    and nb': "\<And>x. neighbors g' x =
                  neighbors g1 x \<union> (if x \<in> ID ` set ns then ID ` set ns - {x} else {})"
    by blast
  have "neighbors g' x =
          neighbors g x \<union> (if x \<in> ID ` set (n # ns) then ID ` set (n # ns) - {x} else {})" for x
    unfolding nb' nb1 using fresh by auto
  with run1 run wf' n' n1 show ?case by simp
qed

subsection \<open>The node loop\<close>

lemma AddNode_wf:
  assumes "AddNode g n = Inr g'" "wf_graph g"
  shows "wf_graph g' \<and> edges g' = edges g \<and> node_ids g' = insert (ID n) (node_ids g)
         \<and> map_of (nodes g') = (map_of (nodes g))(ID n \<mapsto> n)"
proof -
  from assms(1) have g': "g' = g\<lparr>nodes := AList.update (ID n) n (nodes g)\<rparr>"
    by (auto simp: AddNode_def split: option.splits)
  have ids: "node_ids g' = insert (ID n) (node_ids g)"
    by (simp add: g' node_ids_def dom_update)
  have nb: "neighbors g' = neighbors g"
    by (simp add: g' neighbors_def fun_eq_iff)
  have "wf_graph g'"
    using assms(2) unfolding wf_graph_def nb ids
    by (auto simp: g' distinct_update update_conv')
  then show ?thesis
    by (simp add: ids) (simp add: g' update_conv')
qed

lemma getNode_step:
  assumes "getNode signals k (g, acc) = Inr (g1, nl1)" "wf_graph g" "named signals g"
  shows "\<exists>m. nl1 = acc @ [m] \<and> ID m = k \<and> map_of (nodes g1) k = Some m
           \<and> wf_graph g1 \<and> named signals g1 \<and> edges g1 = edges g
           \<and> node_ids g1 = insert k (node_ids g)
           \<and> (\<forall>k' n. map_of (nodes g) k' = Some n \<longrightarrow> map_of (nodes g1) k' = Some n)"
proof (cases "map_of (nodes g) k")
  case (Some node)
  with assms(1) have eq: "g1 = g" "nl1 = acc @ [node]"
    by (auto simp: getNode_def Node_def)
  from assms(2) Some have "ID node = k" unfolding wf_graph_def by blast
  moreover from Some have "k \<in> node_ids g"
    unfolding node_ids_def by (rule map_of_in_keys)
  ultimately show ?thesis
    using assms(2,3) Some eq by (auto simp: insert_absorb)
next
  case None
  let ?m = "\<lparr>IDVal = k, Name = signals ! nat k\<rparr>"
  from assms(1) None have rng: "0 \<le> k" "k < int (length signals)"
    by (auto simp: getNode_def Node_def index_def split: if_splits)
  with assms(1) None have add: "AddNode g ?m = Inr g1" and nl1: "nl1 = acc @ [?m]"
    by (auto simp: getNode_def Node_def index_def Let_def split: sum.splits)
  have idm: "ID ?m = k" by (simp add: ID_def)
  from AddNode_wf [OF add assms(2)] idm
  have wf1: "wf_graph g1" and e1: "edges g1 = edges g"
    and ids: "node_ids g1 = insert k (node_ids g)"
    and n1: "map_of (nodes g1) = (map_of (nodes g))(k \<mapsto> ?m)"
    by simp_all
  have "named signals g1"
    using assms(3) rng unfolding named_def n1 by auto
  moreover have "\<forall>k' n. map_of (nodes g) k' = Some n \<longrightarrow> map_of (nodes g1) k' = Some n"
    using None unfolding n1 by auto
  ultimately show ?thesis
    using nl1 idm wf1 e1 ids n1 by simp
qed

lemma getNode_loop:
  assumes "foldE (getNode signals) ks (g, acc) = Inr (g', nl)" "wf_graph g" "named signals g"
  shows "wf_graph g' \<and> named signals g' \<and> edges g' = edges g
         \<and> node_ids g' = node_ids g \<union> set ks
         \<and> (\<exists>new. nl = acc @ new \<and> map ID new = ks
                \<and> (\<forall>m \<in> set new. map_of (nodes g') (ID m) = Some m))
         \<and> (\<forall>k n. map_of (nodes g) k = Some n \<longrightarrow> map_of (nodes g') k = Some n)"
  using assms
proof (induction ks arbitrary: g acc)
  case Nil
  then show ?case by simp
next
  case (Cons k ks)
  from Cons.prems(1) obtain g1 nl1 where
    step: "getNode signals k (g, acc) = Inr (g1, nl1)"
    and run: "foldE (getNode signals) ks (g1, nl1) = Inr (g', nl)"
    by (auto split: sum.splits)
  from getNode_step [OF step Cons.prems(2,3)] obtain m where
    m: "nl1 = acc @ [m]" "ID m = k" "map_of (nodes g1) k = Some m"
    and g1: "wf_graph g1" "named signals g1" "edges g1 = edges g"
      "node_ids g1 = insert k (node_ids g)"
    and keep1: "\<forall>k' n. map_of (nodes g) k' = Some n \<longrightarrow> map_of (nodes g1) k' = Some n"
    by blast
  from Cons.IH [OF run g1(1,2)] obtain new where
    g': "wf_graph g'" "named signals g'" "edges g' = edges g1"
      "node_ids g' = node_ids g1 \<union> set ks"
    and new: "nl = nl1 @ new" "map ID new = ks"
      "\<forall>m \<in> set new. map_of (nodes g') (ID m) = Some m"
    and keep: "\<forall>k n. map_of (nodes g1) k = Some n \<longrightarrow> map_of (nodes g') k = Some n"
    by blast
  have a: "nl = acc @ (m # new)" using m(1) new(1) by simp
  have b: "map ID (m # new) = k # ks" using m(2) new(2) by simp
  have c: "\<forall>m' \<in> set (m # new). map_of (nodes g') (ID m') = Some m'"
    using m(2,3) new(3) keep by simp
  have ex: "\<exists>new. nl = acc @ new \<and> map ID new = k # ks
                \<and> (\<forall>m \<in> set new. map_of (nodes g') (ID m) = Some m)"
    by (rule exI [of _ "m # new"]) (intro conjI a b c)
  have ed: "edges g' = edges g" using g'(3) g1(3) by simp
  have ids: "node_ids g' = node_ids g \<union> set (k # ks)"
    using g'(4) g1(4) by auto
  have kp: "\<forall>k n. map_of (nodes g) k = Some n \<longrightarrow> map_of (nodes g') k = Some n"
    using keep1 keep by blast
  show ?case by (intro conjI g'(1,2) ed ids ex kp)
qed

lemma getNode_loop_succeeds:
  assumes "\<forall>k \<in> set ks. 0 \<le> k \<and> k < int (length signals)"
  shows "\<exists>g' nl. foldE (getNode signals) ks (g, acc) = Inr (g', nl)"
  using assms
proof (induction ks arbitrary: g acc)
  case Nil
  then show ?case by simp
next
  case (Cons k ks)
  then have "\<exists>g1 nl1. getNode signals k (g, acc) = Inr (g1, nl1)"
    by (auto simp: getNode_def Node_def index_def AddNode_def ID_def Let_def split: option.splits)
  with Cons show ?case by auto
qed

lemma getNode_loop_fault:
  assumes "foldE (getNode signals) ks st = Inl e"
  shows "e = Panic IndexOutOfRange"
  using assms
proof (induction ks arbitrary: st)
  case Nil
  then show ?case by simp
next
  case (Cons k ks)
  obtain g acc where st: "st = (g, acc)" by (cases st)
  show ?case
  proof (cases "getNode signals k st")
    case (Inl e')
    with Cons.prems have "e' = e" by simp
    with Inl show ?thesis
      by (auto simp: st getNode_def Node_def index_def AddNode_def ID_def Let_def
          split: option.splits if_splits)
  next
    case (Inr st')
    with Cons show ?thesis by simp
  qed
qed

subsection \<open>One constraint, then all of them\<close>

lemma neighbors_cong: "edges g' = edges g \<Longrightarrow> neighbors g' = neighbors g"
  by (simp add: neighbors_def fun_eq_iff)

lemma named_cong: "nodes g' = nodes g \<Longrightarrow> named signals g' = named signals g"
  by (simp add: named_def)

lemma node_ids_cong: "nodes g' = nodes g \<Longrightarrow> node_ids g' = node_ids g"
  by (simp add: node_ids_def)

lemma addConstraint_effect:
  assumes ord: "is_range_order ord" and run: "addConstraint ord signals c g = Inr g'"
    and wf: "wf_graph g" and nm: "named signals g"
  shows "wf_graph g' \<and> named signals g' \<and> node_ids g' = node_ids g \<union> signals_of c
         \<and> (\<forall>x. neighbors g' x =
                neighbors g x \<union> (if x \<in> signals_of c then signals_of c - {x} else {}))"
proof -
  let ?ks = "ord (map fst (signalSet c))"
  have ks: "distinct ?ks" "set ?ks = signals_of c"
    using ord signalSet_distinct [of c] signalSet_keys [of c]
    by (simp_all add: range_order_distinct range_order_set)
  from run obtain g1 nl where
    loop: "foldE (getNode signals) ?ks (g, []) = Inr (g1, nl)"
    and conn: "connectAll nl g1 = Inr g'"
    by (auto simp: addConstraint_def split: sum.splits)
  from getNode_loop [OF loop wf nm] have
    g1: "wf_graph g1" "named signals g1" "edges g1 = edges g"
      "node_ids g1 = node_ids g \<union> set ?ks"
    and nl: "map ID nl = ?ks" "\<forall>m \<in> set nl. map_of (nodes g1) (ID m) = Some m"
    by auto
  have dist: "distinct (map ID nl)" using nl(1) ks(1) by simp
  have ids: "ID ` set nl = signals_of c"
    using nl(1) ks(2) by (metis set_map)
  from connectAll_effect [OF dist g1(1) nl(2)] conn have
    g': "wf_graph g'" "nodes g' = nodes g1"
    and nb: "\<And>x. neighbors g' x =
               neighbors g1 x \<union> (if x \<in> ID ` set nl then ID ` set nl - {x} else {})"
    by auto
  have "named signals g'" using g1(2) named_cong [OF g'(2)] by simp
  moreover have "node_ids g' = node_ids g \<union> signals_of c"
    using g1(4) ks(2) node_ids_cong [OF g'(2)] by simp
  moreover have "\<forall>x. neighbors g' x =
                neighbors g x \<union> (if x \<in> signals_of c then signals_of c - {x} else {})"
    using nb ids neighbors_cong [OF g1(3)] by simp
  ultimately show ?thesis using g'(1) by blast
qed

lemma addConstraint_succeeds:
  assumes ord: "is_range_order ord" and wf: "wf_graph g" and nm: "named signals g"
    and rng: "\<forall>s \<in> signals_of c. 0 \<le> s \<and> s < int (length signals)"
  shows "\<exists>g'. addConstraint ord signals c g = Inr g'"
proof -
  let ?ks = "ord (map fst (signalSet c))"
  have ks: "distinct ?ks" "set ?ks = signals_of c"
    using ord signalSet_distinct [of c] signalSet_keys [of c]
    by (simp_all add: range_order_distinct range_order_set)
  from rng ks(2) have "\<forall>k \<in> set ?ks. 0 \<le> k \<and> k < int (length signals)" by simp
  from getNode_loop_succeeds [OF this] obtain g1 nl where
    loop: "foldE (getNode signals) ?ks (g, []) = Inr (g1, nl)" by blast
  from getNode_loop [OF loop wf nm] have
    g1: "wf_graph g1"
    and nl: "map ID nl = ?ks" "\<forall>m \<in> set nl. map_of (nodes g1) (ID m) = Some m"
    by auto
  have dist: "distinct (map ID nl)" using nl(1) ks(1) by simp
  from connectAll_effect [OF dist g1 nl(2)] obtain g' where "connectAll nl g1 = Inr g'"
    by blast
  with loop show ?thesis by (simp add: addConstraint_def)
qed

lemma addConstraint_fault:
  assumes ord: "is_range_order ord" and wf: "wf_graph g" and nm: "named signals g"
    and run: "addConstraint ord signals c g = Inl e"
  shows "e = Panic IndexOutOfRange"
proof -
  let ?ks = "ord (map fst (signalSet c))"
  have ks: "distinct ?ks"
    using ord signalSet_distinct [of c] by (simp add: range_order_distinct)
  show ?thesis
  proof (cases "foldE (getNode signals) ?ks (g, [])")
    case (Inl e')
    with run have "e' = e" by (simp add: addConstraint_def)
    with Inl getNode_loop_fault show ?thesis by blast
  next
    case (Inr st)
    obtain g1 nl where st: "st = (g1, nl)" by (cases st)
    from getNode_loop [OF Inr [unfolded st] wf nm] have
      g1: "wf_graph g1"
      and nl: "map ID nl = ?ks" "\<forall>m \<in> set nl. map_of (nodes g1) (ID m) = Some m"
      by auto
    have dist: "distinct (map ID nl)" using nl(1) ks by simp
    from connectAll_effect [OF dist g1 nl(2)] obtain g' where "connectAll nl g1 = Inr g'"
      by blast
    with Inr st run show ?thesis by (simp add: addConstraint_def)
  qed
qed

lemma build_loop:
  assumes "is_range_order ord" "foldE (addConstraint ord signals) data g = Inr g'"
    and "wf_graph g" "named signals g"
  shows "wf_graph g' \<and> named signals g'
         \<and> node_ids g' = node_ids g \<union> (\<Union>c \<in> set data. signals_of c)
         \<and> (\<forall>x. neighbors g' x =
                neighbors g x
                \<union> {v. v \<noteq> x \<and> (\<exists>c \<in> set data. x \<in> signals_of c \<and> v \<in> signals_of c)})"
  using assms
proof (induction data arbitrary: g)
  case Nil
  then show ?case by simp
next
  case (Cons c data)
  from Cons.prems(2) obtain g1 where
    step: "addConstraint ord signals c g = Inr g1"
    and rest: "foldE (addConstraint ord signals) data g1 = Inr g'"
    by (auto split: sum.splits)
  from addConstraint_effect [OF Cons.prems(1) step Cons.prems(3,4)] have
    g1: "wf_graph g1" "named signals g1" "node_ids g1 = node_ids g \<union> signals_of c"
    and nb1: "\<And>x. neighbors g1 x =
                neighbors g x \<union> (if x \<in> signals_of c then signals_of c - {x} else {})"
    by auto
  from Cons.IH [OF Cons.prems(1) rest g1(1,2)] have
    g': "wf_graph g'" "named signals g'"
      "node_ids g' = node_ids g1 \<union> (\<Union>c \<in> set data. signals_of c)"
    and nb': "\<And>x. neighbors g' x =
                neighbors g1 x
                \<union> {v. v \<noteq> x \<and> (\<exists>c \<in> set data. x \<in> signals_of c \<and> v \<in> signals_of c)}"
    by auto
  have ids: "node_ids g' = node_ids g \<union> (\<Union>c \<in> set (c # data). signals_of c)"
    unfolding g'(3) g1(3) by auto
  have nb: "\<forall>x. neighbors g' x =
                neighbors g x
                \<union> {v. v \<noteq> x \<and> (\<exists>c \<in> set (c # data). x \<in> signals_of c \<and> v \<in> signals_of c)}"
    unfolding nb' nb1 by auto
  show ?case by (intro conjI g'(1,2) ids nb)
qed

lemma build_loop_succeeds:
  assumes "is_range_order ord" "wf_graph g" "named signals g"
    and "\<forall>c \<in> set data. \<forall>s \<in> signals_of c. 0 \<le> s \<and> s < int (length signals)"
  shows "\<exists>g'. foldE (addConstraint ord signals) data g = Inr g'"
  using assms
proof (induction data arbitrary: g)
  case Nil
  then show ?case by simp
next
  case (Cons c data)
  from Cons.prems(4) have "\<forall>s \<in> signals_of c. 0 \<le> s \<and> s < int (length signals)" by simp
  from addConstraint_succeeds [OF Cons.prems(1-3) this] obtain g1 where
    step: "addConstraint ord signals c g = Inr g1" by blast
  from addConstraint_effect [OF Cons.prems(1) step Cons.prems(2,3)] have
    "wf_graph g1" "named signals g1" by auto
  from Cons.IH [OF Cons.prems(1) this] Cons.prems(4) step show ?case by simp
qed

lemma build_loop_fault:
  assumes "is_range_order ord" "wf_graph g" "named signals g"
    and "foldE (addConstraint ord signals) data g = Inl e"
  shows "e = Panic IndexOutOfRange"
  using assms
proof (induction data arbitrary: g)
  case Nil
  then show ?case by simp
next
  case (Cons c data)
  show ?case
  proof (cases "addConstraint ord signals c g")
    case (Inl e')
    with Cons.prems(4) have "e' = e" by simp
    with Inl addConstraint_fault [OF Cons.prems(1-3)] show ?thesis by blast
  next
    case (Inr g1)
    from addConstraint_effect [OF Cons.prems(1) Inr Cons.prems(2,3)] have
      "wf_graph g1" "named signals g1" by auto
    from Cons.IH [OF Cons.prems(1) this] Cons.prems(4) Inr show ?thesis by simp
  qed
qed

lemma wf_New: "wf_graph NewUndirectedGraph"
  by (simp add: wf_graph_def NewUndirectedGraph_def neighbors_def)

lemma named_New: "named signals NewUndirectedGraph"
  by (simp add: named_def NewUndirectedGraph_def)

lemma buildGraph_effect:
  assumes "is_range_order ord" "buildGraph ord data signals = Inr g"
  shows "wf_graph g" "named signals g"
    "node_ids g = (\<Union>c \<in> set data. signals_of c)"
    "neighbors g x = {v. v \<noteq> x \<and> (\<exists>c \<in> set data. x \<in> signals_of c \<and> v \<in> signals_of c)}"
proof -
  have "node_ids NewUndirectedGraph = {}" "neighbors NewUndirectedGraph x = {}"
    by (simp_all add: node_ids_def neighbors_def NewUndirectedGraph_def)
  with build_loop [OF assms(1) assms(2) [unfolded buildGraph_def] wf_New named_New]
  show "wf_graph g" "named signals g"
    "node_ids g = (\<Union>c \<in> set data. signals_of c)"
    "neighbors g x = {v. v \<noteq> x \<and> (\<exists>c \<in> set data. x \<in> signals_of c \<and> v \<in> signals_of c)}"
    by simp_all
qed

lemma buildGraph_succeeds:
  assumes "is_range_order ord"
    and "\<forall>c \<in> set data. \<forall>s \<in> signals_of c. 0 \<le> s \<and> s < int (length signals)"
  shows "\<exists>g. buildGraph ord data signals = Inr g"
  unfolding buildGraph_def
  by (rule build_loop_succeeds [OF assms(1) wf_New named_New assms(2)])

lemma buildGraph_fault:
  assumes "is_range_order ord" "buildGraph ord data signals = Inl e"
  shows "e = Panic IndexOutOfRange"
  by (rule build_loop_fault [OF assms(1) wf_New named_New assms(2) [unfolded buildGraph_def]])

subsection \<open>The iterators\<close>

lemma map_filter_map_of:
  assumes "set ks \<subseteq> fst ` set al"
  shows "List.map_filter (map_of al) ks = map (\<lambda>k. the (map_of al k)) ks"
  using assms
proof (induction ks)
  case Nil
  then show ?case by simp
next
  case (Cons k ks)
  then have "k \<in> fst ` set al" by simp
  then obtain v where "map_of al k = Some v"
    by (metis map_of_eq_None_iff not_Some_eq)
  with Cons show ?case by simp
qed

lemma map_the_map_of:
  "distinct (map fst al) \<Longrightarrow> map (\<lambda>k. the (map_of al k)) (map fst al) = map snd al"
  by (induction al) (auto simp: map_of_eq_None_iff image_iff)

lemma map_of_entry:
  "distinct (map fst al) \<Longrightarrow> p \<in> set al \<Longrightarrow> map_of al (fst p) = Some (snd p)"
  by (metis map_of_eq_Some_iff prod.collapse)

lemma Nodes_mset:
  assumes "is_range_order ord" "wf_graph g"
  shows "mset (Nodes ord g) = mset (map snd (nodes g))"
proof -
  let ?ks = "map fst (nodes g)"
  from assms(2) have dist: "distinct ?ks" by (simp add: wf_graph_def)
  have "set (ord ?ks) \<subseteq> fst ` set (nodes g)"
    using range_order_set [OF assms(1), of ?ks] by simp
  then have "Nodes ord g = map (\<lambda>k. the (map_of (nodes g) k)) (ord ?ks)"
    unfolding Nodes_def by (rule map_filter_map_of)
  then have "mset (Nodes ord g) = image_mset (\<lambda>k. the (map_of (nodes g) k)) (mset (ord ?ks))"
    by simp
  also have "\<dots> = image_mset (\<lambda>k. the (map_of (nodes g) k)) (mset ?ks)"
    using assms(1) by (simp add: is_range_order_def)
  also have "\<dots> = mset (map (\<lambda>k. the (map_of (nodes g) k)) ?ks)"
    by (simp only: mset_map)
  also have "\<dots> = mset (map snd (nodes g))"
    by (simp only: map_the_map_of [OF dist])
  finally show ?thesis .
qed

lemma Nodes_ids:
  assumes "is_range_order ord" "wf_graph g"
  shows "mset (map ID (Nodes ord g)) = mset_set (node_ids g)"
proof -
  from assms(2) have dist: "distinct (map fst (nodes g))"
    and key: "\<And>k n. map_of (nodes g) k = Some n \<Longrightarrow> ID n = k"
    by (auto simp: wf_graph_def)
  have "ID (snd p) = fst p" if "p \<in> set (nodes g)" for p
    using key [OF map_of_entry [OF dist that]] .
  then have "map ID (map snd (nodes g)) = map fst (nodes g)"
    by simp
  then have "mset (map ID (Nodes ord g)) = mset (map fst (nodes g))"
    using Nodes_mset [OF assms] by (metis mset_map)
  also have "\<dots> = mset_set (set (map fst (nodes g)))"
    using dist by (simp only: mset_set_set)
  finally show ?thesis by (simp add: node_ids_def)
qed

lemma Nodes_named:
  assumes "is_range_order ord" "wf_graph g" "named signals g"
  shows "mset (Nodes ord g)
           = image_mset (\<lambda>k. \<lparr>IDVal = k, Name = signals ! nat k\<rparr>) (mset_set (node_ids g))"
proof -
  from assms(2) have dist: "distinct (map fst (nodes g))"
    by (auto simp: wf_graph_def)
  have "snd p = \<lparr>IDVal = fst p, Name = signals ! nat (fst p)\<rparr>" if "p \<in> set (nodes g)" for p
    using map_of_entry [OF dist that] assms(3) unfolding named_def by blast
  then have "map snd (nodes g)
               = map (\<lambda>k. \<lparr>IDVal = k, Name = signals ! nat k\<rparr>) (map fst (nodes g))"
    by simp
  then have "mset (Nodes ord g)
               = image_mset (\<lambda>k. \<lparr>IDVal = k, Name = signals ! nat k\<rparr>) (mset (map fst (nodes g)))"
    using Nodes_mset [OF assms(1,2)] by (metis mset_map)
  also have "mset (map fst (nodes g)) = mset_set (set (map fst (nodes g)))"
    using dist by (simp only: mset_set_set)
  finally show ?thesis by (simp add: node_ids_def)
qed

lemma From_length:
  assumes "is_range_order ord" "wf_graph g"
  shows "length (From ord g u) = card (neighbors g u)"
proof (cases "map_of (edges g) u")
  case None
  then show ?thesis by (simp add: From_def neighbors_def)
next
  case (Some fm)
  with assms(2) have "distinct (map fst fm)" unfolding wf_graph_def by blast
  then have "card (set (map fst fm)) = length (map fst fm)"
    by (rule distinct_card)
  with Some assms(1) show ?thesis
    by (simp add: From_def neighbors_def range_order_length)
qed

lemma From_nodes:
  assumes "is_range_order ord" "wf_graph g"
  shows "distinct (From ord g u) \<and> None \<notin> set (From ord g u)
         \<and> (\<forall>n. Some n \<in> set (From ord g u) \<longleftrightarrow> ID n \<in> neighbors g u \<and> Node g (ID n) = Some n)"
proof (cases "map_of (edges g) u")
  case None
  then show ?thesis by (simp add: From_def neighbors_def)
next
  case (Some fm)
  let ?ks = "ord (map fst fm)"
  from assms(2) Some have dfm: "distinct (map fst fm)" unfolding wf_graph_def by blast
  have nb: "neighbors g u = set ?ks"
    using Some range_order_set [OF assms(1)] by (simp add: neighbors_def)
  have dks: "distinct ?ks"
    using dfm by (simp add: range_order_distinct [OF assms(1)])
  have fr: "From ord g u = map (map_of (nodes g)) ?ks"
    using Some by (simp add: From_def)
  from assms(2) have key: "\<And>k n. map_of (nodes g) k = Some n \<Longrightarrow> ID n = k"
    and sub: "\<And>v. v \<in> neighbors g u \<Longrightarrow> v \<in> node_ids g"
    unfolding wf_graph_def by blast+
  have found: "\<exists>n. map_of (nodes g) k = Some n" if "k \<in> set ?ks" for k
  proof -
    from that nb have "k \<in> neighbors g u" by simp
    then have "k \<in> fst ` set (nodes g)" using sub by (simp add: node_ids_def)
    then show ?thesis by (metis map_of_eq_None_iff not_Some_eq)
  qed
  have inj: "inj_on (map_of (nodes g)) (set ?ks)"
  proof (rule inj_onI)
    fix a b assume a: "a \<in> set ?ks" and eq: "map_of (nodes g) a = map_of (nodes g) b"
    from found [OF a] obtain n where n: "map_of (nodes g) a = Some n" by blast
    with eq have "map_of (nodes g) b = Some n" by simp
    with n key show "a = b" by blast
  qed
  have d: "distinct (From ord g u)"
    unfolding fr using dks inj by (simp add: distinct_map)
  have n: "None \<notin> set (From ord g u)"
  proof
    assume "None \<in> set (From ord g u)"
    then obtain k where "k \<in> set ?ks" "map_of (nodes g) k = None"
      unfolding fr by (metis (no_types, lifting) imageE list.set_map)
    with found show False by fastforce
  qed
  have m: "Some n \<in> set (From ord g u) \<longleftrightarrow> ID n \<in> neighbors g u \<and> Node g (ID n) = Some n" for n
  proof
    assume "Some n \<in> set (From ord g u)"
    then obtain k where k: "k \<in> set ?ks" "map_of (nodes g) k = Some n"
      unfolding fr by (metis (no_types, lifting) imageE list.set_map)
    from key [OF k(2)] k show "ID n \<in> neighbors g u \<and> Node g (ID n) = Some n"
      by (simp add: nb Node_def)
  next
    assume "ID n \<in> neighbors g u \<and> Node g (ID n) = Some n"
    then have "ID n \<in> set ?ks" "map_of (nodes g) (ID n) = Some n"
      by (simp_all add: nb Node_def)
    then show "Some n \<in> set (From ord g u)"
      unfolding fr by (metis image_eqI list.set_map)
  qed
  show ?thesis by (intro conjI allI d n m)
qed

lemma findUnderconstrainedSignals_filter:
  "findUnderconstrainedSignals ord g
     = map Name (filter (\<lambda>n. length (From ord g (ID n)) \<le> 1) (Nodes ord g))"
proof -
  have "fold (\<lambda>n acc. if length (From ord g (ID n)) \<le> 1 then acc @ [Name n] else acc) ns acc
        = acc @ map Name (filter (\<lambda>n. length (From ord g (ID n)) \<le> 1) ns)" for ns acc
    by (induction ns arbitrary: acc) auto
  then show ?thesis by (simp add: findUnderconstrainedSignals_def)
qed

lemma findUnderconstrainedSignals_mset:
  assumes "is_range_order ord" "wf_graph g"
  shows "mset (findUnderconstrainedSignals ord g)
           = image_mset Name (filter_mset (\<lambda>n. card (neighbors g (ID n)) \<le> 1) (mset (Nodes ord g)))"
  by (simp add: findUnderconstrainedSignals_filter From_length [OF assms])

subsection \<open>Evaluation on concrete inputs\<close>

lemmas graph_eval =
  buildGraph_def addConstraint_def signalSet_def getNode_def Node_def index_def AddNode_def
  SetEdge_def setHalfEdge_def NewUndirectedGraph_def ID_def Let_def

lemma rev_range_order: "is_range_order rev"
  by (simp add: is_range_order_def)

lemma id_range_order: "is_range_order id"
  by (simp add: is_range_order_def)

section \<open>Claims about the helpers\<close>

text \<open>
  C9. For every well-formed symbol table (the file opens, the CSV reader returns its
  records, and every record has at least four fields) \<open>LoadFromSym\<close> returns a name
  list whose entry 0 is \<open>"1"\<close>, whatever the records hold, and whose entry \<open>i + 1\<close>
  is the fourth field of record \<open>i\<close>, in record order.
\<close>

theorem LoadFromSym_wellformed:
  assumes "\<forall>r \<in> set records. 4 \<le> length r"
  shows "\<exists>signals. LoadFromSym (Records records) = Inr signals
           \<and> length signals = Suc (length records)
           \<and> signals ! 0 = ''1''
           \<and> (\<forall>i < length records. signals ! (i + 1) = records ! i ! 3)"
  using assms by (simp add: LoadFromSym_def LoadFromSym_loop)

theorem LoadFromSym_wellformed_witness:
  "LoadFromSym (Records [[''0'', ''0'', ''0'', ''one''], [''1'', ''1'', ''0'', ''main.a'']])
     = Inr [''1'', ''one'', ''main.a'']"
  using LoadFromSym_wellformed
    [of "[[''0'', ''0'', ''0'', ''one''], [''1'', ''1'', ''0'', ''main.a'']]"]
  by (simp add: LoadFromSym_def index_def)

text \<open>
  C10. For every non-negative count and every state of the random source,
  \<open>GenerateRandomArgs\<close> returns a list of exactly \<open>count\<close> integers, each of them
  in the inclusive range from 2 to 15.
\<close>

theorem GenerateRandomArgs_range:
  assumes "0 \<le> cnt"
  shows "\<exists>args r'. GenerateRandomArgs cnt r = Inr (args, r')
           \<and> int (length args) = cnt
           \<and> (\<forall>a \<in> set args. 2 \<le> a \<and> a \<le> 15)"
proof -
  obtain args r' where
    run: "foldE (\<lambda>i (args, r).
                    case Intn 14 r of
                      Inl e \<Rightarrow> Inl e
                    | Inr (v, r') \<Rightarrow> Inr (args[i := v + 2], r'))
             [0..<nat cnt] (replicate (nat cnt) 0, r) = Inr (args, r')"
    and len: "length args = length (replicate (nat cnt) (0::int))"
    and rng: "\<forall>i < nat cnt. 2 \<le> args ! i \<and> args ! i \<le> 15"
    using GenerateRandomArgs_loop [of "nat cnt" "replicate (nat cnt) 0" r] by auto
  from len have len': "length args = nat cnt" by simp
  with rng have "\<forall>a \<in> set args. 2 \<le> a \<and> a \<le> 15"
    by (auto simp: in_set_conv_nth)
  with run len' assms show ?thesis
    by (simp add: GenerateRandomArgs_def)
qed

theorem GenerateRandomArgs_range_witness:
  "GenerateRandomArgs 3 (\<lambda>i. 5 * i + 13) = Inr ([15, 6, 11], \<lambda>i. 5 * (i + 3) + 13)"
proof -
  have upt: "[0..<nat 3] = [0, 1, 2]" by (simp add: upt_rec)
  have rep: "replicate (nat 3) (0::int) = [0, 0, 0]" by (simp add: numeral_3_eq_3)
  show ?thesis
    using GenerateRandomArgs_range [of 3 "\<lambda>i. 5 * i + 13"] upt rep
    by (simp add: GenerateRandomArgs_def Intn_def add.commute)
qed

text \<open>
  C2. A symbol table whose records lack the fourth field does not make
  \<open>LoadFromSym\<close> return an error: the unguarded \<open>record[3]\<close> panics with an index
  out of range. Only input that the CSV reader itself rejects comes back as an error.
\<close>

theorem LoadFromSym_short_record_panics:
  "LoadFromSym (Records [[''1'', ''1'', ''0'']]) = Inl (Panic IndexOutOfRange)
   \<and> LoadFromSym ReadAllFails = Inl (Error CsvParseError)"
  by (simp add: LoadFromSym_def index_def)

text \<open>
  C8 (as amended). \<open>LoadFromJson\<close> turns every key of every linear expression into a
  signal index through \<open>stringToInt\<close>, whatever order the map is ranged in. A key that
  starts with a run of decimal digits denoting a number below \<open>2 ^ 63\<close> yields that
  number, also when other characters follow the digits; a key that starts with a minus
  sign and such a run yields the negated number, not 0; a key that is empty or starts
  with a character that is neither white space, a sign nor a digit yields 0.
\<close>

theorem LoadFromJson_key_policy:
  assumes "is_range_order ord"
  shows "(\<exists>cs. LoadFromJson ord (Decoded td) = Inr cs \<and> length cs = length td
            \<and> (\<forall>i < length td.
                 case (td ! i, cs ! i) of ((a, b, c), (a', b', c')) \<Rightarrow>
                   mset a' = image_mset stringToInt (mset (map fst a))
                   \<and> mset b' = image_mset stringToInt (mset (map fst b))
                   \<and> mset c' = image_mset stringToInt (mset (map fst c))))
         \<and> (\<forall>ds rest. ds \<noteq> [] \<and> (\<forall>d \<in> set ds. isDigit d)
               \<and> (rest = [] \<or> \<not> isDigit (hd rest)) \<and> decimal ds < 2 ^ 63
               \<longrightarrow> stringToInt (ds @ rest) = int (decimal ds))
         \<and> (\<forall>ds rest. ds \<noteq> [] \<and> (\<forall>d \<in> set ds. isDigit d)
               \<and> (rest = [] \<or> \<not> isDigit (hd rest)) \<and> decimal ds \<le> 2 ^ 63
               \<longrightarrow> stringToInt (45 # ds @ rest) = - int (decimal ds))
         \<and> (\<forall>s. (case s of [] \<Rightarrow> True
                      | r # rs \<Rightarrow> \<not> isSpace r \<and> r \<noteq> 43 \<and> r \<noteq> 45 \<and> \<not> isDigit r)
               \<longrightarrow> stringToInt s = 0)"
proof (intro conjI)
  show "\<exists>cs. LoadFromJson ord (Decoded td) = Inr cs \<and> length cs = length td
            \<and> (\<forall>i < length td.
                 case (td ! i, cs ! i) of ((a, b, c), (a', b', c')) \<Rightarrow>
                   mset a' = image_mset stringToInt (mset (map fst a))
                   \<and> mset b' = image_mset stringToInt (mset (map fst b))
                   \<and> mset c' = image_mset stringToInt (mset (map fst c)))"
    using assms
    by (simp add: LoadFromJson_map convertKeys_mset split: prod.splits)
next
  show "\<forall>ds rest. ds \<noteq> [] \<and> (\<forall>d \<in> set ds. isDigit d)
               \<and> (rest = [] \<or> \<not> isDigit (hd rest)) \<and> decimal ds < 2 ^ 63
               \<longrightarrow> stringToInt (ds @ rest) = int (decimal ds)"
    using stringToInt_digits by blast
next
  show "\<forall>ds rest. ds \<noteq> [] \<and> (\<forall>d \<in> set ds. isDigit d)
               \<and> (rest = [] \<or> \<not> isDigit (hd rest)) \<and> decimal ds \<le> 2 ^ 63
               \<longrightarrow> stringToInt (45 # ds @ rest) = - int (decimal ds)"
    using stringToInt_minus_digits by blast
next
  show "\<forall>s. (case s of [] \<Rightarrow> True
                      | r # rs \<Rightarrow> \<not> isSpace r \<and> r \<noteq> 43 \<and> r \<noteq> 45 \<and> \<not> isDigit r)
               \<longrightarrow> stringToInt s = 0"
    using stringToInt_no_number by blast
qed

theorem LoadFromJson_key_policy_witness:
  "LoadFromJson rev (Decoded [([(map of_char ''17'', ''1''), (map of_char ''-5'', ''2'')], [],
                               [(map of_char ''abc'', ''3'')])])
     = Inr [([-5, 17], [], [0])]"
  using LoadFromJson_key_policy
    [of rev "[([(map of_char ''17'', ''1''), (map of_char ''-5'', ''2'')], [],
               [(map of_char ''abc'', ''3'')])]"]
  by (simp add: json_eval is_range_order_def)

text \<open>
  The claim as stated fails: the key \<open>"-5"\<close> does not parse as a non-negative
  integer, and yields index \<open>-5\<close>; the key \<open>"7x"\<close> yields 7.
\<close>

theorem LoadFromJson_negative_key:
  "LoadFromJson id (Decoded [([(map of_char ''-5'', ''1'')], [], [(map of_char ''7x'', ''1'')])])
     = Inr [([-5], [], [7])]"
  by (simp add: json_eval)

section \<open>Claims about the graph builder and the underconstraint check\<close>

text \<open>
  C1 (as amended). For every constraint list and name table in which every referenced
  signal index lies within the name table, and for every order in which the maps are
  ranged, \<open>buildGraph\<close> completes without a panic, and the node of every referenced
  signal carries the name found at its index.
\<close>

theorem buildGraph_in_range:
  assumes "is_range_order ord"
    and "\<forall>c \<in> set data. \<forall>s \<in> signals_of c. 0 \<le> s \<and> s < int (length signals)"
  shows "\<exists>g. buildGraph ord data signals = Inr g
           \<and> (\<forall>c \<in> set data. \<forall>s \<in> signals_of c.
                 Node g s = Some \<lparr>IDVal = s, Name = signals ! nat s\<rparr>)"
proof -
  from buildGraph_succeeds [OF assms] obtain g where g: "buildGraph ord data signals = Inr g"
    by blast
  note eff = buildGraph_effect [OF assms(1) g]
  have "Node g s = Some \<lparr>IDVal = s, Name = signals ! nat s\<rparr>"
    if "c \<in> set data" "s \<in> signals_of c" for c s
  proof -
    from that have "s \<in> fst ` set (nodes g)"
      using eff(3) by (auto simp: node_ids_def)
    then obtain n where n: "map_of (nodes g) s = Some n"
      by (metis map_of_eq_None_iff not_Some_eq)
    with eff(2) have "n = \<lparr>IDVal = s, Name = signals ! nat s\<rparr>"
      unfolding named_def by blast
    with n show ?thesis by (simp add: Node_def)
  qed
  with g show ?thesis by blast
qed

theorem buildGraph_in_range_witness:
  "\<exists>g. buildGraph rev [([1], [2], []), ([2], [0], [2])] [''1'', ''a'', ''b''] = Inr g
      \<and> Node g 0 = Some \<lparr>IDVal = 0, Name = ''1''\<rparr>
      \<and> Node g 1 = Some \<lparr>IDVal = 1, Name = ''a''\<rparr>
      \<and> Node g 2 = Some \<lparr>IDVal = 2, Name = ''b''\<rparr>"
  using buildGraph_in_range [OF rev_range_order,
      of "[([1], [2], []), ([2], [0], [2])]" "[''1'', ''a'', ''b'']"]
  by (auto simp: signals_of_def)

text \<open>
  The claim as stated fails: there is no placeholder name. A constraint that references
  index 5 against a name table of two entries makes \<open>signals[signal]\<close> panic.
\<close>

theorem buildGraph_out_of_range_panics:
  "buildGraph id [([1], [5], [])] [''1'', ''a''] = Inl (Panic IndexOutOfRange)"
  by (simp add: graph_eval)

text \<open>
  C3. For every constraint list, \<open>buildGraph\<close> never fails on an edge (no self-edge
  panic, no node collision), and the graph it returns is simple: no node is its own
  neighbour, and the neighbours \<open>From\<close> lists for a node are pairwise different and as
  many as the node has distinct neighbours. Setting an edge between two nodes that are
  already adjacent succeeds and leaves the nodes, every neighbourhood and every degree
  as they were.
\<close>

theorem buildGraph_simple:
  assumes "is_range_order ord"
  shows "buildGraph ord data signals \<noteq> Inl (Panic SelfEdge)
       \<and> buildGraph ord data signals \<noteq> Inl (Panic NodeIDCollision)
       \<and> (\<forall>g. buildGraph ord data signals = Inr g \<longrightarrow>
            (\<forall>u. u \<notin> neighbors g u \<and> distinct (From ord g u)
                  \<and> (\<forall>n. Some n \<in> set (From ord g u) \<longrightarrow> ID n \<noteq> u)
                  \<and> length (From ord g u) = card (neighbors g u))
            \<and> (\<forall>e. ID (T e) \<in> neighbors g (ID (F e)) \<longrightarrow>
                  (\<exists>g'. SetEdge g e = Inr g' \<and> node_ids g' = node_ids g
                        \<and> (\<forall>u. neighbors g' u = neighbors g u)
                        \<and> (\<forall>u. length (From ord g' u) = length (From ord g u)))))"
proof (intro conjI allI impI)
  show "buildGraph ord data signals \<noteq> Inl (Panic SelfEdge)"
    using buildGraph_fault [OF assms] by fastforce
  show "buildGraph ord data signals \<noteq> Inl (Panic NodeIDCollision)"
    using buildGraph_fault [OF assms] by fastforce
next
  fix g u assume g: "buildGraph ord data signals = Inr g"
  note wf = buildGraph_effect(1) [OF assms g]
  from wf have irr: "\<And>u v. v \<in> neighbors g u \<Longrightarrow> u \<noteq> v"
    unfolding wf_graph_def by blast
  show "u \<notin> neighbors g u" using irr by blast
  show "distinct (From ord g u)" using From_nodes [OF assms wf] by blast
  show "length (From ord g u) = card (neighbors g u)" by (rule From_length [OF assms wf])
  fix n assume "Some n \<in> set (From ord g u)"
  then have "ID n \<in> neighbors g u" using From_nodes [OF assms wf, of u] by blast
  then show "ID n \<noteq> u" using irr by blast
next
  fix g and e :: Edge assume g: "buildGraph ord data signals = Inr g"
    and adj: "ID (T e) \<in> neighbors g (ID (F e))"
  note wf = buildGraph_effect(1) [OF assms g]
  from wf adj have ne: "ID (F e) \<noteq> ID (T e)" and sym: "ID (F e) \<in> neighbors g (ID (T e))"
    and inF: "ID (F e) \<in> node_ids g"
    unfolding wf_graph_def by blast+
  from wf sym have inT: "ID (T e) \<in> node_ids g"
    unfolding wf_graph_def by blast
  from SetEdge_Inr [OF ne] obtain g' where g': "SetEdge g e = Inr g'" by blast
  have ids: "node_ids g' = node_ids g"
    using SetEdge_node_ids [OF g'] inF inT by auto
  have nb: "neighbors g' u = neighbors g u" for u
    using SetEdge_neighbors [OF g', of u] adj sym by auto
  have wf': "wf_graph g'" by (rule SetEdge_wf [OF g' wf])
  have len: "length (From ord g' u) = length (From ord g u)" for u
    by (simp add: From_length [OF assms wf] From_length [OF assms wf'] nb)
  from g' ids nb len
  show "\<exists>g'. SetEdge g e = Inr g' \<and> node_ids g' = node_ids g
             \<and> (\<forall>u. neighbors g' u = neighbors g u)
             \<and> (\<forall>u. length (From ord g' u) = length (From ord g u))"
    by blast
qed

theorem buildGraph_simple_witness:
  "\<exists>g. buildGraph rev [([1], [2], []), ([2, 1], [1], [2])] [''1'', ''a'', ''b''] = Inr g
      \<and> 1 \<notin> neighbors g 1 \<and> distinct (From rev g 1)
      \<and> length (From rev g 1) = card (neighbors g 1)
      \<and> From rev g 1 = [Some \<lparr>IDVal = 2, Name = ''b''\<rparr>]"
proof -
  let ?g = "\<lparr>nodes = [(2, \<lparr>IDVal = 2, Name = ''b''\<rparr>), (1, \<lparr>IDVal = 1, Name = ''a''\<rparr>)],
            edges = [(2, [(1, \<lparr>F = \<lparr>IDVal = 1, Name = ''a''\<rparr>, T = \<lparr>IDVal = 2, Name = ''b''\<rparr>\<rparr>)]),
                     (1, [(2, \<lparr>F = \<lparr>IDVal = 1, Name = ''a''\<rparr>, T = \<lparr>IDVal = 2, Name = ''b''\<rparr>\<rparr>)])]\<rparr>"
  have b: "buildGraph rev [([1], [2], []), ([2, 1], [1], [2])] [''1'', ''a'', ''b''] = Inr ?g"
    by (simp add: graph_eval)
  note all = buildGraph_simple [OF rev_range_order,
      of "[([1], [2], []), ([2, 1], [1], [2])]" "[''1'', ''a'', ''b'']",
      THEN conjunct2, THEN conjunct2, THEN spec, THEN mp, OF b, THEN conjunct1]
  from all [THEN spec, of 1]
  have "1 \<notin> neighbors ?g 1 \<and> distinct (From rev ?g 1)
        \<and> length (From rev ?g 1) = card (neighbors ?g 1)"
    by blast
  moreover have "From rev ?g 1 = [Some \<lparr>IDVal = 2, Name = ''b''\<rparr>]"
    by (simp add: From_def)
  ultimately show ?thesis using b by blast
qed

text \<open>
  C4. For every constraint list, the nodes of the built graph are exactly the distinct
  signal indices referenced by some expression of some constraint: each referenced
  index is the ID of exactly one node, and no other ID occurs.
\<close>

theorem buildGraph_nodes:
  assumes "is_range_order ord" "buildGraph ord data signals = Inr g"
  shows "mset (map ID (Nodes ord g)) = mset_set (\<Union>c \<in> set data. signals_of c)
         \<and> (\<forall>k. Node g k \<noteq> None \<longleftrightarrow> (\<exists>c \<in> set data. k \<in> signals_of c))"
proof -
  note eff = buildGraph_effect [OF assms]
  have "Node g k \<noteq> None \<longleftrightarrow> (\<exists>c \<in> set data. k \<in> signals_of c)" for k
    using eff(3) by (auto simp: Node_def node_ids_def map_of_eq_None_iff)
  with Nodes_ids [OF assms(1) eff(1)] eff(3) show ?thesis by simp
qed

theorem buildGraph_nodes_witness:
  "mset (map ID (Nodes id
      \<lparr>nodes = [(1, \<lparr>IDVal = 1, Name = ''a''\<rparr>), (2, \<lparr>IDVal = 2, Name = ''b''\<rparr>),
                (3, \<lparr>IDVal = 3, Name = ''c''\<rparr>)],
       edges = [(1, [(2, \<lparr>F = \<lparr>IDVal = 1, Name = ''a''\<rparr>, T = \<lparr>IDVal = 2, Name = ''b''\<rparr>\<rparr>)]),
                (2, [(1, \<lparr>F = \<lparr>IDVal = 1, Name = ''a''\<rparr>, T = \<lparr>IDVal = 2, Name = ''b''\<rparr>\<rparr>),
                     (3, \<lparr>F = \<lparr>IDVal = 2, Name = ''b''\<rparr>, T = \<lparr>IDVal = 3, Name = ''c''\<rparr>\<rparr>)]),
                (3, [(2, \<lparr>F = \<lparr>IDVal = 2, Name = ''b''\<rparr>, T = \<lparr>IDVal = 3, Name = ''c''\<rparr>\<rparr>)])]\<rparr>))
   = mset_set (signals_of ([1], [2], []) \<union> signals_of ([2], [3], [2]))"
proof -
  let ?g = "\<lparr>nodes = [(1, \<lparr>IDVal = 1, Name = ''a''\<rparr>), (2, \<lparr>IDVal = 2, Name = ''b''\<rparr>),
                (3, \<lparr>IDVal = 3, Name = ''c''\<rparr>)],
       edges = [(1, [(2, \<lparr>F = \<lparr>IDVal = 1, Name = ''a''\<rparr>, T = \<lparr>IDVal = 2, Name = ''b''\<rparr>\<rparr>)]),
                (2, [(1, \<lparr>F = \<lparr>IDVal = 1, Name = ''a''\<rparr>, T = \<lparr>IDVal = 2, Name = ''b''\<rparr>\<rparr>),
                     (3, \<lparr>F = \<lparr>IDVal = 2, Name = ''b''\<rparr>, T = \<lparr>IDVal = 3, Name = ''c''\<rparr>\<rparr>)]),
                (3, [(2, \<lparr>F = \<lparr>IDVal = 2, Name = ''b''\<rparr>, T = \<lparr>IDVal = 3, Name = ''c''\<rparr>\<rparr>)])]\<rparr>"
  have b: "buildGraph id [([1], [2], []), ([2], [3], [2])] [''1'', ''a'', ''b'', ''c''] = Inr ?g"
    by (simp add: graph_eval)
  show ?thesis
    using buildGraph_nodes [OF id_range_order b] by simp
qed

text \<open>
  C5. For every built graph, the names \<open>findUnderconstrainedSignals\<close> reports are
  those of the nodes with at most one distinct neighbour, one entry per such node; node
  0 and input signals are reported like every other node.
\<close>

theorem findUnderconstrainedSignals_degree:
  assumes "is_range_order ord" "buildGraph ord data signals = Inr g"
  shows "mset (findUnderconstrainedSignals ord g)
           = image_mset Name
               (filter_mset (\<lambda>n. card (neighbors g (ID n)) \<le> 1) (mset (Nodes ord g)))
         \<and> (\<forall>n \<in> set (Nodes ord g).
               card (neighbors g (ID n)) \<le> 1 \<longrightarrow> Name n \<in> set (findUnderconstrainedSignals ord g))
         \<and> (\<forall>s \<in> set (findUnderconstrainedSignals ord g).
               \<exists>n \<in> set (Nodes ord g). Name n = s \<and> card (neighbors g (ID n)) \<le> 1)"
proof -
  note wf = buildGraph_effect(1) [OF assms]
  have eq: "findUnderconstrainedSignals ord g
              = map Name (filter (\<lambda>n. card (neighbors g (ID n)) \<le> 1) (Nodes ord g))"
    by (simp add: findUnderconstrainedSignals_filter From_length [OF assms(1) wf])
  have "mset (findUnderconstrainedSignals ord g)
           = image_mset Name
               (filter_mset (\<lambda>n. card (neighbors g (ID n)) \<le> 1) (mset (Nodes ord g)))"
    by (rule findUnderconstrainedSignals_mset [OF assms(1) wf])
  moreover have "\<forall>n \<in> set (Nodes ord g).
               card (neighbors g (ID n)) \<le> 1 \<longrightarrow> Name n \<in> set (findUnderconstrainedSignals ord g)"
    unfolding eq by simp
  moreover have "\<forall>s \<in> set (findUnderconstrainedSignals ord g).
               \<exists>n \<in> set (Nodes ord g). Name n = s \<and> card (neighbors g (ID n)) \<le> 1"
    unfolding eq by auto
  ultimately show ?thesis by blast
qed

theorem findUnderconstrainedSignals_degree_witness:
  "buildGraph id [([0], [1], [])] [''1'', ''a'']
     = Inr \<lparr>nodes = [(0, \<lparr>IDVal = 0, Name = ''1''\<rparr>), (1, \<lparr>IDVal = 1, Name = ''a''\<rparr>)],
            edges = [(0, [(1, \<lparr>F = \<lparr>IDVal = 0, Name = ''1''\<rparr>, T = \<lparr>IDVal = 1, Name = ''a''\<rparr>\<rparr>)]),
                     (1, [(0, \<lparr>F = \<lparr>IDVal = 0, Name = ''1''\<rparr>, T = \<lparr>IDVal = 1, Name = ''a''\<rparr>\<rparr>)])]\<rparr>
   \<and> mset (findUnderconstrainedSignals id
        \<lparr>nodes = [(0, \<lparr>IDVal = 0, Name = ''1''\<rparr>), (1, \<lparr>IDVal = 1, Name = ''a''\<rparr>)],
         edges = [(0, [(1, \<lparr>F = \<lparr>IDVal = 0, Name = ''1''\<rparr>, T = \<lparr>IDVal = 1, Name = ''a''\<rparr>\<rparr>)]),
                  (1, [(0, \<lparr>F = \<lparr>IDVal = 0, Name = ''1''\<rparr>, T = \<lparr>IDVal = 1, Name = ''a''\<rparr>\<rparr>)])]\<rparr>)
     = {#''1'', ''a''#}"
proof -
  let ?g = "\<lparr>nodes = [(0, \<lparr>IDVal = 0, Name = ''1''\<rparr>), (1, \<lparr>IDVal = 1, Name = ''a''\<rparr>)],
            edges = [(0, [(1, \<lparr>F = \<lparr>IDVal = 0, Name = ''1''\<rparr>, T = \<lparr>IDVal = 1, Name = ''a''\<rparr>\<rparr>)]),
                     (1, [(0, \<lparr>F = \<lparr>IDVal = 0, Name = ''1''\<rparr>, T = \<lparr>IDVal = 1, Name = ''a''\<rparr>\<rparr>)])]\<rparr>"
  have b: "buildGraph id [([0], [1], [])] [''1'', ''a''] = Inr ?g"
    by (simp add: graph_eval)
  have n: "Nodes id ?g = [\<lparr>IDVal = 0, Name = ''1''\<rparr>, \<lparr>IDVal = 1, Name = ''a''\<rparr>]"
    by (simp add: Nodes_def)
  have c: "card (neighbors ?g 0) = 1" "card (neighbors ?g 1) = 1"
    by (simp_all add: neighbors_def)
  from findUnderconstrainedSignals_degree [OF id_range_order b, THEN conjunct1]
  have "mset (findUnderconstrainedSignals id ?g) = {#''1'', ''a''#}"
    by (simp add: n c ID_def)
  with b show ?thesis by (rule conjI)
qed

text \<open>
  C7. For a constraint list of two constraints, the first referencing exactly the
  signals 1 and 2 and the second exactly 2 and 3, the built graph has exactly the nodes
  1, 2, 3 and exactly the edges between 1 and 2 and between 2 and 3; signals 1 and 3
  have degree 1 and signal 2 has degree 2, and the reported names are those of signals
  1 and 3.
\<close>

theorem buildGraph_two_constraints:
  assumes "is_range_order ord" "signals_of c1 = {1, 2}" "signals_of c2 = {2, 3}"
    and "buildGraph ord [c1, c2] signals = Inr g"
  shows "node_ids g = {1, 2, 3} \<and> edge_set g = {{1, 2}, {2, 3}}
         \<and> card (neighbors g 1) = 1 \<and> card (neighbors g 2) = 2 \<and> card (neighbors g 3) = 1
         \<and> mset (findUnderconstrainedSignals ord g) = {#signals ! 1, signals ! 3#}"
proof -
  note eff = buildGraph_effect [OF assms(1,4)]
  have ids: "node_ids g = {1, 2, 3}"
    using eff(3) assms(2,3) by auto
  have nb: "neighbors g x = {v. v \<noteq> x \<and> (x \<in> {1, 2} \<and> v \<in> {1, 2} \<or> x \<in> {2, 3} \<and> v \<in> {2, 3})}" for x
    unfolding eff(4) using assms(2,3) by auto
  have n1: "neighbors g 1 = {2}" and n2: "neighbors g 2 = {1, 3}" and n3: "neighbors g 3 = {2}"
    unfolding nb by auto
  have nx: "neighbors g x = {}" if "x \<noteq> 1" "x \<noteq> 2" "x \<noteq> 3" for x
    unfolding nb using that by auto
  have es: "edge_set g = {{1, 2}, {2, 3}}"
  proof (rule set_eqI)
    fix E
    have "E \<in> edge_set g \<longleftrightarrow> (\<exists>u v. E = {u, v} \<and> v \<in> neighbors g u)"
      by (simp add: edge_set_def)
    also have "\<dots> \<longleftrightarrow> E = {1, 2} \<or> E = {2, 1} \<or> E = {2, 3} \<or> E = {3, 2}"
    proof
      assume "\<exists>u v. E = {u, v} \<and> v \<in> neighbors g u"
      then obtain u v where uv: "E = {u, v}" "v \<in> neighbors g u" by blast
      then have "u = 1 \<or> u = 2 \<or> u = 3" using nx by blast
      with uv n1 n2 n3 show "E = {1, 2} \<or> E = {2, 1} \<or> E = {2, 3} \<or> E = {3, 2}"
        by auto
    next
      assume "E = {1, 2} \<or> E = {2, 1} \<or> E = {2, 3} \<or> E = {3, 2}"
      with n1 n2 n3 show "\<exists>u v. E = {u, v} \<and> v \<in> neighbors g u"
        by (metis insertI1 insert_commute)
    qed
    also have "\<dots> \<longleftrightarrow> E \<in> {{1, 2}, {2, 3}}"
      by (auto simp: insert_commute)
    finally show "E \<in> edge_set g \<longleftrightarrow> E \<in> {{1, 2}, {2, 3}}" .
  qed
  have ms: "mset_set {1, 2, 3 :: int} = {#1, 2, 3#}"
    by simp
  have nodes: "mset (Nodes ord g)
                 = {#\<lparr>IDVal = 1, Name = signals ! 1\<rparr>, \<lparr>IDVal = 2, Name = signals ! 2\<rparr>,
                     \<lparr>IDVal = 3, Name = signals ! 3\<rparr>#}"
    unfolding Nodes_named [OF assms(1) eff(1,2)] ids ms
    by (simp add: numeral_2_eq_2 numeral_3_eq_3 nat_numeral)
  have "mset (findUnderconstrainedSignals ord g) = {#signals ! 1, signals ! 3#}"
    unfolding findUnderconstrainedSignals_mset [OF assms(1) eff(1)] nodes
    by (simp add: ID_def n1 n2 n3)
  with ids es n1 n2 n3 show ?thesis by simp
qed

theorem buildGraph_two_constraints_witness:
  "node_ids \<lparr>nodes = [(1, \<lparr>IDVal = 1, Name = ''a''\<rparr>), (2, \<lparr>IDVal = 2, Name = ''b''\<rparr>),
                (3, \<lparr>IDVal = 3, Name = ''c''\<rparr>)],
       edges = [(1, [(2, \<lparr>F = \<lparr>IDVal = 1, Name = ''a''\<rparr>, T = \<lparr>IDVal = 2, Name = ''b''\<rparr>\<rparr>)]),
                (2, [(1, \<lparr>F = \<lparr>IDVal = 1, Name = ''a''\<rparr>, T = \<lparr>IDVal = 2, Name = ''b''\<rparr>\<rparr>),
                     (3, \<lparr>F = \<lparr>IDVal = 2, Name = ''b''\<rparr>, T = \<lparr>IDVal = 3, Name = ''c''\<rparr>\<rparr>)]),
                (3, [(2, \<lparr>F = \<lparr>IDVal = 2, Name = ''b''\<rparr>, T = \<lparr>IDVal = 3, Name = ''c''\<rparr>\<rparr>)])]\<rparr>
     = {1, 2, 3}
   \<and> findUnderconstrainedSignals id
       \<lparr>nodes = [(1, \<lparr>IDVal = 1, Name = ''a''\<rparr>), (2, \<lparr>IDVal = 2, Name = ''b''\<rparr>),
                (3, \<lparr>IDVal = 3, Name = ''c''\<rparr>)],
       edges = [(1, [(2, \<lparr>F = \<lparr>IDVal = 1, Name = ''a''\<rparr>, T = \<lparr>IDVal = 2, Name = ''b''\<rparr>\<rparr>)]),
                (2, [(1, \<lparr>F = \<lparr>IDVal = 1, Name = ''a''\<rparr>, T = \<lparr>IDVal = 2, Name = ''b''\<rparr>\<rparr>),
                     (3, \<lparr>F = \<lparr>IDVal = 2, Name = ''b''\<rparr>, T = \<lparr>IDVal = 3, Name = ''c''\<rparr>\<rparr>)]),
                (3, [(2, \<lparr>F = \<lparr>IDVal = 2, Name = ''b''\<rparr>, T = \<lparr>IDVal = 3, Name = ''c''\<rparr>\<rparr>)])]\<rparr>
     = [''a'', ''c'']"
proof -
  let ?g = "\<lparr>nodes = [(1, \<lparr>IDVal = 1, Name = ''a''\<rparr>), (2, \<lparr>IDVal = 2, Name = ''b''\<rparr>),
                (3, \<lparr>IDVal = 3, Name = ''c''\<rparr>)],
       edges = [(1, [(2, \<lparr>F = \<lparr>IDVal = 1, Name = ''a''\<rparr>, T = \<lparr>IDVal = 2, Name = ''b''\<rparr>\<rparr>)]),
                (2, [(1, \<lparr>F = \<lparr>IDVal = 1, Name = ''a''\<rparr>, T = \<lparr>IDVal = 2, Name = ''b''\<rparr>\<rparr>),
                     (3, \<lparr>F = \<lparr>IDVal = 2, Name = ''b''\<rparr>, T = \<lparr>IDVal = 3, Name = ''c''\<rparr>\<rparr>)]),
                (3, [(2, \<lparr>F = \<lparr>IDVal = 2, Name = ''b''\<rparr>, T = \<lparr>IDVal = 3, Name = ''c''\<rparr>\<rparr>)])]\<rparr>"
  have b: "buildGraph id [([1], [2], []), ([2], [3], [2])] [''1'', ''a'', ''b'', ''c''] = Inr ?g"
    by (simp add: graph_eval)
  have s1: "signals_of ([1], [2], []) = {1, 2}" and s2: "signals_of ([2], [3], [2]) = {2, 3}"
    by (auto simp: signals_of_def)
  have "findUnderconstrainedSignals id ?g = [''a'', ''c'']"
    by (simp add: findUnderconstrainedSignals_def Nodes_def From_def ID_def)
  with buildGraph_two_constraints [OF id_range_order s1 s2 b, THEN conjunct1]
  show ?thesis by (rule conjI)
qed

end
